theory Spec2Isabelle
  imports Main
begin

section \<open>The multi-step input runner of \<^verbatim>\<open>src/client/common/utils/multiStepInput.ts\<close>\<close>

subsection \<open>Control signals and promises\<close>

text \<open>
  \<^verbatim>\<open>class InputFlowAction\<close> has exactly three instances, compared by identity in
  \<^verbatim>\<open>stepThrough\<close>: \<open>flow_back\<close> is \<^verbatim>\<open>InputFlowAction.back\<close>, and so on. Whatever else a
  step throws is a failure of type \<open>'e\<close>.
\<close>

datatype InputFlowAction = flow_back | flow_cancel | flow_resume

datatype 'e thrown = Signal InputFlowAction | Failure 'e

text \<open>
  A JavaScript promise is pending (\<open>None\<close>) or settled; \<^verbatim>\<open>resolve\<close> and
  \<^verbatim>\<open>reject\<close> act on a pending promise only.
\<close>

datatype ('a, 'e) settled = Fulfilled 'a | RejectedWith 'e

type_synonym ('a, 'e) promise = "('a, 'e) settled option"

definition resolve :: "'a \<Rightarrow> ('a, 'e) promise \<Rightarrow> ('a, 'e) promise" where
  "resolve v p = (case p of None \<Rightarrow> Some (Fulfilled v) | Some s \<Rightarrow> Some s)"

definition reject :: "'e \<Rightarrow> ('a, 'e) promise \<Rightarrow> ('a, 'e) promise" where
  "reject e p = (case p of None \<Rightarrow> Some (RejectedWith e) | Some s \<Rightarrow> Some s)"

subsection \<open>Widgets of the editor\<close>

text \<open>
  \<^verbatim>\<open>QuickInputButtons.Back\<close> is the one button the runner knows; every other button is
  the caller's.
\<close>

datatype QuickInputButton = Back | Custom nat

datatype 'i widget_kind =
    QuickPickWidget (w_items: "'i list") (w_activeItems: "'i list") (w_placeholder: string)
      (w_matchOnDescription: bool) (w_matchOnDetail: bool)
  | InputBoxWidget (w_prompt: string) (w_password: bool)

text \<open>
  The fields of a \<^verbatim>\<open>QuickInput\<close> that the runner reads or writes. A widget fresh from
  \<^verbatim>\<open>createQuickPick\<close> or \<^verbatim>\<open>createInputBox\<close> is enabled and not busy.
\<close>

record 'i QuickInput =
  w_title :: "string option"
  w_step :: "nat option"
  w_totalSteps :: "nat option"
  w_enabled :: bool
  w_busy :: bool
  w_ignoreFocusOut :: bool
  w_buttons :: "QuickInputButton list"
  w_value :: string
  w_validationMessage :: "string option"
  w_kind :: "'i widget_kind"

record 'i IQuickPickParameters =
  qp_title :: "string option"
  qp_step :: "nat option"
  qp_totalSteps :: "nat option"
  qp_items :: "'i list"
  qp_activeItem :: "'i option"
  qp_placeholder :: string
  qp_buttons :: "QuickInputButton list option"
  qp_matchOnDescription :: "bool option"
  qp_matchOnDetail :: "bool option"
  qp_acceptFilterBoxTextAsSelection :: "bool option"

text \<open>
  \<^verbatim>\<open>validate(value): Promise<string | undefined>\<close>: the promise of a call on \<open>text\<close>
  settles with \<open>validate text\<close>, \<open>Inr\<close> the message it resolves with and \<open>Inl\<close> what it
  rejects with.
\<close>

record 'e InputBoxParameters =
  ib_title :: string
  ib_password :: "bool option"
  ib_step :: "nat option"
  ib_totalSteps :: "nat option"
  ib_value :: string
  ib_prompt :: string
  ib_buttons :: "QuickInputButton list option"
  validate :: "string \<Rightarrow> 'e + string option"

subsection \<open>The runner\<close>

text \<open>
  \<open>current\<close> and \<open>steps\<close> are the two fields of \<^verbatim>\<open>class MultiStepInput\<close>; \<open>current\<close>
  refers to a widget by its position in \<open>shell\<close>, the widgets created through the
  application shell so far. \<open>ui\<close> records the \<^verbatim>\<open>show()\<close> and \<^verbatim>\<open>dispose()\<close> calls made on
  widgets, in order, and \<open>invoked\<close> the steps called, in order.
\<close>

datatype ui_call = Show nat | Dispose nat

record ('id, 'i) MultiStepInput =
  current :: "nat option"
  steps :: "'id list"
  shell :: "'i QuickInput list"
  ui :: "ui_call list"
  invoked :: "'id list"

text \<open>The object after \<^verbatim>\<open>new MultiStepInput(shell)\<close>.\<close>

definition MultiStepInput_new :: "('id, 'i) MultiStepInput" where
  "MultiStepInput_new = \<lparr>current = None, steps = [], shell = [], ui = [], invoked = []\<rparr>"

text \<open>\<^verbatim>\<open>if (this.current) { this.current.dispose(); }\<close>\<close>

definition dispose_current :: "('id, 'i) MultiStepInput \<Rightarrow> ('id, 'i) MultiStepInput" where
  "dispose_current this =
     (case current this of
        None \<Rightarrow> this
      | Some c \<Rightarrow> this\<lparr>ui := ui this @ [Dispose c]\<rparr>)"

text \<open>
  The end of both promise executors: dispose the previous prompt if there is one, make the
  new widget the current one, show it.
\<close>

definition make_current :: "'i QuickInput \<Rightarrow> ('id, 'i) MultiStepInput \<Rightarrow> ('id, 'i) MultiStepInput" where
  "make_current input this =
     (let this1 = dispose_current this;
          n = length (shell this1)
      in this1\<lparr>shell := shell this1 @ [input], current := Some n, ui := ui this1 @ [Show n]\<rparr>)"

text \<open>
  \<^verbatim>\<open>[...(this.steps.length > 1 ? [QuickInputButtons.Back] : []), ...(buttons || [])]\<close>
\<close>

definition prompt_buttons :: "'id list \<Rightarrow> QuickInputButton list option \<Rightarrow> QuickInputButton list" where
  "prompt_buttons stack bs =
     (if length stack > 1 then [Back] else []) @ (case bs of None \<Rightarrow> [] | Some l \<Rightarrow> l)"

definition or_false :: "bool option \<Rightarrow> bool" where
  "or_false b = (case b of None \<Rightarrow> False | Some v \<Rightarrow> v)"

text \<open>The widget that the executor of \<^verbatim>\<open>showQuickPick\<close> creates and fills in.\<close>

definition quickPick_input :: "'id list \<Rightarrow> 'i IQuickPickParameters \<Rightarrow> 'i QuickInput" where
  "quickPick_input stack p =
     \<lparr>w_title = qp_title p, w_step = qp_step p, w_totalSteps = qp_totalSteps p,
      w_enabled = True, w_busy = False, w_ignoreFocusOut = True,
      w_buttons = prompt_buttons stack (qp_buttons p),
      w_value = [], w_validationMessage = None,
      w_kind = QuickPickWidget (qp_items p)
                 (case qp_activeItem p of None \<Rightarrow> [] | Some a \<Rightarrow> [a])
                 (qp_placeholder p)
                 (or_false (qp_matchOnDescription p)) (or_false (qp_matchOnDetail p))\<rparr>"

definition showQuickPick ::
  "'i IQuickPickParameters \<Rightarrow> ('id, 'i) MultiStepInput \<Rightarrow> ('id, 'i) MultiStepInput" where
  "showQuickPick p this = make_current (quickPick_input (steps this) p) this"

text \<open>The widget that the executor of \<^verbatim>\<open>showInputBox\<close> creates and fills in.\<close>

definition inputBox_input :: "'id list \<Rightarrow> 'e InputBoxParameters \<Rightarrow> 'i QuickInput" where
  "inputBox_input stack p =
     \<lparr>w_title = Some (ib_title p), w_step = ib_step p, w_totalSteps = ib_totalSteps p,
      w_enabled = True, w_busy = False, w_ignoreFocusOut = True,
      w_buttons = prompt_buttons stack (ib_buttons p),
      w_value = ib_value p, w_validationMessage = None,
      w_kind = InputBoxWidget (ib_prompt p) (or_false (ib_password p))\<rparr>"

definition showInputBox ::
  "'e InputBoxParameters \<Rightarrow> ('id, 'i) MultiStepInput \<Rightarrow> ('id, 'i) MultiStepInput" where
  "showInputBox p this = make_current (inputBox_input (steps this) p) this"

subsection \<open>Steps and the navigation loop\<close>

text \<open>
  A step is named by an \<open>'id\<close> (the loop stores and compares steps, it never looks
  inside one). What a call \<^verbatim>\<open>step(this, state)\<close> does is given by a table \<open>body\<close>: from
  the runner and the shared state as the step finds them, the prompts it shows in order,
  the shared state it leaves, and how it completes.
\<close>

datatype ('i, 'e) prompt_call =
    ShowQuickPick "'i IQuickPickParameters"
  | ShowInputBox "'e InputBoxParameters"

datatype ('id, 'e) completion = Returns "'id option" | Throws "'e thrown"

type_synonym ('id, 'i, 's, 'e) step_table =
  "'id \<Rightarrow> ('id, 'i) MultiStepInput \<Rightarrow> 's \<Rightarrow> ('i, 'e) prompt_call list \<times> 's \<times> ('id, 'e) completion"

fun perform :: "('i, 'e) prompt_call \<Rightarrow> ('id, 'i) MultiStepInput \<Rightarrow> ('id, 'i) MultiStepInput" where
  "perform (ShowQuickPick p) this = showQuickPick p this"
| "perform (ShowInputBox p) this = showInputBox p this"

fun perform_all :: "('i, 'e) prompt_call list \<Rightarrow> ('id, 'i) MultiStepInput \<Rightarrow> ('id, 'i) MultiStepInput" where
  "perform_all [] this = this"
| "perform_all (c # cs) this = perform_all cs (perform c this)"

text \<open>\<^verbatim>\<open>Array.prototype.pop\<close>: the last element, or \<^verbatim>\<open>undefined\<close> on an empty array.\<close>

definition pop :: "'a list \<Rightarrow> 'a option \<times> 'a list" where
  "pop xs = (if xs = [] then (None, []) else (Some (last xs), butlast xs))"

text \<open>
  The head of the loop body: \<^verbatim>\<open>this.steps.push(step)\<close>, then the current prompt, if any,
  is disabled and marked busy. The step is then invoked.
\<close>

definition mark_busy :: "('id, 'i) MultiStepInput \<Rightarrow> ('id, 'i) MultiStepInput" where
  "mark_busy this =
     (case current this of
        None \<Rightarrow> this
      | Some c \<Rightarrow>
          (if c < length (shell this)
           then this\<lparr>shell := (shell this)[c := (shell this ! c)\<lparr>w_enabled := False, w_busy := True\<rparr>]\<rparr>
           else this))"

definition enter :: "'id \<Rightarrow> ('id, 'i) MultiStepInput \<Rightarrow> ('id, 'i) MultiStepInput" where
  "enter s this = mark_busy (this\<lparr>steps := steps this @ [s]\<rparr>)"

text \<open>The runner once the call of step \<open>s\<close> has shown the prompts \<open>shows\<close>.\<close>

definition invoke ::
  "'id \<Rightarrow> ('i, 'e) prompt_call list \<Rightarrow> ('id, 'i) MultiStepInput \<Rightarrow> ('id, 'i) MultiStepInput" where
  "invoke s shows this = perform_all shows (this\<lparr>invoked := invoked this @ [s]\<rparr>)"

text \<open>
  \<^verbatim>\<open>stepThrough\<close>: the \<^verbatim>\<open>while (step)\<close> loop with its \<^verbatim>\<open>try\<close>/\<^verbatim>\<open>catch\<close>, and the disposal
  after the loop. The result is how the promise of \<^verbatim>\<open>stepThrough\<close> settles, with the
  shared state and the runner at that moment; \<open>None\<close> is a loop that never ends.
\<close>

partial_function (option) stepThrough_loop ::
  "('id, 'i, 's, 'e) step_table \<Rightarrow> 'id option \<Rightarrow> 's \<Rightarrow> ('id, 'i) MultiStepInput
     \<Rightarrow> ((unit, 'e) settled \<times> 's \<times> ('id, 'i) MultiStepInput) option" where
  "stepThrough_loop body step state this =
     (case step of
        None \<Rightarrow> Some (Fulfilled (), state, dispose_current this)
      | Some s \<Rightarrow>
          (case body s (enter s this) state of
             (shows, state', result) \<Rightarrow>
               (let this' = invoke s shows (enter s this) in
                case result of
                  Returns next \<Rightarrow> stepThrough_loop body next state' this'
                | Throws (Signal flow_back) \<Rightarrow>
                    stepThrough_loop body (fst (pop (snd (pop (steps this'))))) state'
                      (this'\<lparr>steps := snd (pop (snd (pop (steps this'))))\<rparr>)
                | Throws (Signal flow_resume) \<Rightarrow>
                    stepThrough_loop body (fst (pop (steps this'))) state'
                      (this'\<lparr>steps := snd (pop (steps this'))\<rparr>)
                | Throws (Signal flow_cancel) \<Rightarrow> stepThrough_loop body None state' this'
                | Throws (Failure err) \<Rightarrow> Some (RejectedWith err, state', this'))))"

definition stepThrough ::
  "('id, 'i, 's, 'e) step_table \<Rightarrow> 'id \<Rightarrow> 's \<Rightarrow> ('id, 'i) MultiStepInput
     \<Rightarrow> ((unit, 'e) settled \<times> 's \<times> ('id, 'i) MultiStepInput) option" where
  "stepThrough body start state this = stepThrough_loop body (Some start) state this"

definition run ::
  "('id, 'i, 's, 'e) step_table \<Rightarrow> 'id \<Rightarrow> 's \<Rightarrow> ('id, 'i) MultiStepInput
     \<Rightarrow> ((unit, 'e) settled \<times> 's \<times> ('id, 'i) MultiStepInput) option" where
  "run body start state this = stepThrough body start state this"

text \<open>What a finished call of \<^verbatim>\<open>run\<close> left in the runner.\<close>

definition runner_after ::
  "((unit, 'e) settled \<times> 's \<times> ('id, 'i) MultiStepInput) option \<Rightarrow> ('id, 'i) MultiStepInput option" where
  "runner_after res = map_option (\<lambda>x. snd (snd x)) res"

definition settled_as ::
  "((unit, 'e) settled \<times> 's \<times> ('id, 'i) MultiStepInput) option \<Rightarrow> (unit, 'e) settled option" where
  "settled_as res = map_option fst res"

subsection \<open>Which prompts are on screen\<close>

text \<open>
  Replaying the \<^verbatim>\<open>show()\<close> and \<^verbatim>\<open>dispose()\<close> calls gives the widgets on screen after
  each call.
\<close>

definition ui_step :: "nat list \<Rightarrow> ui_call \<Rightarrow> nat list" where
  "ui_step vis u = (case u of Show n \<Rightarrow> List.insert n vis | Dispose n \<Rightarrow> removeAll n vis)"

definition visible :: "ui_call list \<Rightarrow> nat list" where
  "visible calls = foldl ui_step [] calls"

text \<open>At no moment of the replay are two widgets on screen.\<close>

fun never_two_from :: "nat list \<Rightarrow> ui_call list \<Rightarrow> bool" where
  "never_two_from vis [] = (length vis \<le> 1)"
| "never_two_from vis (u # us) = (length vis \<le> 1 \<and> never_two_from (ui_step vis u) us)"

definition never_two_visible :: "ui_call list \<Rightarrow> bool" where
  "never_two_visible calls = never_two_from [] calls"

text \<open>
  The runner owns its prompt: whatever is on screen is the widget \<open>current\<close> refers to, and
  there never were two.
\<close>

definition single_prompt :: "('id, 'i) MultiStepInput \<Rightarrow> bool" where
  "single_prompt this =
     (never_two_visible (ui this) \<and>
      (case current this of
         None \<Rightarrow> visible (ui this) = []
       | Some c \<Rightarrow> set (visible (ui this)) \<subseteq> {c}))"

text \<open>
  The current prompt is active: it is a widget of the shell that was never disposed, and
  every call recorded so far is on a widget of the shell.
\<close>

fun widget_of :: "ui_call \<Rightarrow> nat" where
  "widget_of (Show n) = n"
| "widget_of (Dispose n) = n"

definition prompt_active :: "('id, 'i) MultiStepInput \<Rightarrow> bool" where
  "prompt_active this =
     (list_all (\<lambda>u. widget_of u < length (shell this)) (ui this) \<and>
      (case current this of
         None \<Rightarrow> True
       | Some c \<Rightarrow> c < length (shell this) \<and> count_list (ui this) (Dispose c) = 0))"

subsection \<open>The listeners of a quick pick\<close>

text \<open>
  What the editor reports on a widget, and what a prompt resolves with: an item, the text
  of the box, a button of the caller, or \<^verbatim>\<open>undefined\<close>.
\<close>

datatype 'i QuickInputEvent =
    DidTriggerButton QuickInputButton
  | DidChangeSelection "'i list"
  | DidHide
  | DidAccept
  | DidChangeValue string

datatype 'i response = Picked 'i | Text string | Pressed QuickInputButton | Undefined

text \<open>
  The listeners registered by the executor of \<^verbatim>\<open>showQuickPick\<close>, acting on the promise
  they close over; \<open>input\<close> is the widget when the event fires. \<^verbatim>\<open>onDidAccept\<close> is
  registered only with \<^verbatim>\<open>acceptFilterBoxTextAsSelection\<close>, and nothing listens to
  \<^verbatim>\<open>onDidChangeValue\<close>.
\<close>

definition quickPick_on ::
  "'i IQuickPickParameters \<Rightarrow> 'i QuickInput \<Rightarrow> 'i QuickInputEvent
     \<Rightarrow> ('i response, InputFlowAction) promise \<Rightarrow> ('i response, InputFlowAction) promise" where
  "quickPick_on p input ev promise =
     (case ev of
        DidTriggerButton item \<Rightarrow>
          (if item = Back then reject flow_back promise else resolve (Pressed item) promise)
      | DidChangeSelection selectedItems \<Rightarrow>
          resolve (case selectedItems of [] \<Rightarrow> Undefined | x # _ \<Rightarrow> Picked x) promise
      | DidHide \<Rightarrow> resolve Undefined promise
      | DidAccept \<Rightarrow>
          (if or_false (qp_acceptFilterBoxTextAsSelection p)
           then resolve (Text (w_value input)) promise else promise)
      | DidChangeValue text \<Rightarrow> promise)"

subsection \<open>The listeners of an input box\<close>

text \<open>
  The executor of \<^verbatim>\<open>showInputBox\<close> closes over the widget \<open>input\<close>, the promise it settles
  (\<open>outcome\<close>) and the variable \<open>validating\<close>. Every call of \<^verbatim>\<open>validate\<close> returns a promise
  of its own; promises are numbered in the order of the calls, \<open>issued\<close> counts them, and
  \<open>awaiting\<close> holds the listener suspended at \<^verbatim>\<open>await\<close> on each one with the text it passed to
  \<^verbatim>\<open>validate\<close>. Promise \<open>0\<close> is the call \<^verbatim>\<open>validate('')\<close> of the executor, which nobody awaits.
\<close>

datatype awaiter = AcceptAwait string | ChangeAwait string

record 'i InputBoxPrompt =
  input :: "'i QuickInput"
  outcome :: "('i response, InputFlowAction) promise"
  validating :: nat
  issued :: nat
  awaiting :: "nat \<rightharpoonup> awaiter"

definition inputBox_prompt :: "'id list \<Rightarrow> 'e InputBoxParameters \<Rightarrow> 'i InputBoxPrompt" where
  "inputBox_prompt stack p =
     \<lparr>input = inputBox_input stack p, outcome = None, validating = 0, issued = 1,
      awaiting = Map.empty\<rparr>"

text \<open>JavaScript truthiness of \<^verbatim>\<open>string | undefined\<close>: the empty string is falsy.\<close>

definition truthy :: "string option \<Rightarrow> bool" where
  "truthy m = (case m of None \<Rightarrow> False | Some s \<Rightarrow> s \<noteq> [])"

text \<open>
  An event on the box, up to the first \<^verbatim>\<open>await\<close> of its listener. Once the promise of the
  prompt is settled the \<^verbatim>\<open>finally\<close> block has disposed the listeners, so later events reach
  nobody. \<^verbatim>\<open>onDidChangeValue\<close> fires with the new text of the box.
\<close>

definition inputBox_on ::
  "'e InputBoxParameters \<Rightarrow> 'i QuickInputEvent \<Rightarrow> 'i InputBoxPrompt \<Rightarrow> 'i InputBoxPrompt" where
  "inputBox_on p ev b =
     (if outcome b \<noteq> None then b
      else case ev of
        DidTriggerButton item \<Rightarrow>
          (if item = Back then b\<lparr>outcome := reject flow_back (outcome b)\<rparr>
           else b\<lparr>outcome := resolve (Pressed item) (outcome b)\<rparr>)
      | DidAccept \<Rightarrow>
          b\<lparr>input := (input b)\<lparr>w_enabled := False, w_busy := True\<rparr>,
            awaiting := (awaiting b)(issued b \<mapsto> AcceptAwait (w_value (input b))),
            issued := Suc (issued b)\<rparr>
      | DidChangeValue text \<Rightarrow>
          b\<lparr>input := (input b)\<lparr>w_value := text\<rparr>,
            validating := issued b,
            awaiting := (awaiting b)(issued b \<mapsto> ChangeAwait text),
            issued := Suc (issued b)\<rparr>
      | DidHide \<Rightarrow> b\<lparr>outcome := resolve Undefined (outcome b)\<rparr>
      | DidChangeSelection selectedItems \<Rightarrow> b)"

text \<open>
  The promise \<open>pid\<close> of a \<^verbatim>\<open>validate\<close> call settles and the listener awaiting it runs to its
  end. A rejected validation makes the \<^verbatim>\<open>await\<close> throw, which ends the listener there.
\<close>

definition validation_settled ::
  "'e InputBoxParameters \<Rightarrow> nat \<Rightarrow> 'i InputBoxPrompt \<Rightarrow> 'i InputBoxPrompt" where
  "validation_settled p pid b =
     (case awaiting b pid of
        None \<Rightarrow> b
      | Some (AcceptAwait inputValue) \<Rightarrow>
          (case validate p inputValue of
             Inl err \<Rightarrow> b\<lparr>awaiting := (awaiting b)(pid := None)\<rparr>
           | Inr message \<Rightarrow>
               b\<lparr>outcome := (if \<not> truthy message then resolve (Text inputValue) (outcome b)
                              else outcome b),
                 input := (input b)\<lparr>w_enabled := True, w_busy := False\<rparr>,
                 awaiting := (awaiting b)(pid := None)\<rparr>)
      | Some (ChangeAwait text) \<Rightarrow>
          (case validate p text of
             Inl err \<Rightarrow> b\<lparr>awaiting := (awaiting b)(pid := None)\<rparr>
           | Inr validationMessage \<Rightarrow>
               (if pid = validating b
                then b\<lparr>input := (input b)\<lparr>w_validationMessage := validationMessage\<rparr>,
                       awaiting := (awaiting b)(pid := None)\<rparr>
                else b\<lparr>awaiting := (awaiting b)(pid := None)\<rparr>)))"

text \<open>What happens to a box over time: events of the editor and validations settling.\<close>

datatype 'i happening = Event "'i QuickInputEvent" | Settle nat

fun happen :: "'e InputBoxParameters \<Rightarrow> 'i InputBoxPrompt \<Rightarrow> 'i happening \<Rightarrow> 'i InputBoxPrompt" where
  "happen p b (Event ev) = inputBox_on p ev b"
| "happen p b (Settle pid) = validation_settled p pid b"

definition happen_all ::
  "'e InputBoxParameters \<Rightarrow> 'i happening list \<Rightarrow> 'i InputBoxPrompt \<Rightarrow> 'i InputBoxPrompt" where
  "happen_all p hs b = foldl (happen p) b hs"

subsection \<open>Example chains\<close>

text \<open>Small step tables on which the properties below are evaluated.\<close>

datatype demo_step = StepA | StepB | StepC

definition demo_pick :: "string IQuickPickParameters" where
  "demo_pick =
     \<lparr>qp_title = Some ''Select'', qp_step = None, qp_totalSteps = None,
      qp_items = [''x'', ''y''], qp_activeItem = None, qp_placeholder = ''pick one'',
      qp_buttons = None, qp_matchOnDescription = None, qp_matchOnDetail = None,
      qp_acceptFilterBoxTextAsSelection = None\<rparr>"

text \<open>The same quick pick with \<^verbatim>\<open>QuickInputButtons.Back\<close> among the caller's own buttons.\<close>

definition demo_pick_with_back :: "string IQuickPickParameters" where
  "demo_pick_with_back = demo_pick\<lparr>qp_buttons := Some [Back]\<rparr>"

definition demo_validate :: "string \<Rightarrow> string + string option" where
  "demo_validate text =
     (if text = ''a'' then Inr (Some ''too short'')
      else if text = ''!'' then Inl ''validator failed''
      else Inr None)"

definition demo_box :: "string InputBoxParameters" where
  "demo_box =
     \<lparr>ib_title = ''Name'', ib_password = None, ib_step = None, ib_totalSteps = None,
      ib_value = [], ib_prompt = ''enter a name'', ib_buttons = None,
      validate = demo_validate\<rparr>"

definition demo_calls :: "(string, string) prompt_call list" where
  "demo_calls = [ShowQuickPick demo_pick]"

definition chain_ABC :: "(demo_step, string, nat, string) step_table" where
  "chain_ABC s this visits =
     (case s of
        StepA \<Rightarrow> (demo_calls, visits, Returns (if visits = 0 then Some StepB else None))
      | StepB \<Rightarrow> (demo_calls, Suc visits, Throws (Signal flow_back))
      | StepC \<Rightarrow> ([], visits, Returns None))"

definition failing_chain :: "(demo_step, string, nat, string) step_table" where
  "failing_chain s this n = (demo_calls, n, Throws (Failure ''boom''))"

definition cancelling_chain :: "(demo_step, string, nat, string) step_table" where
  "cancelling_chain s this n =
     (case s of
        StepA \<Rightarrow> (demo_calls, n, Returns (Some StepB))
      | StepB \<Rightarrow> (demo_calls, n, Throws (Signal flow_cancel))
      | StepC \<Rightarrow> ([], n, Returns None))"

definition finishing_chain :: "(demo_step, string, nat, string) step_table" where
  "finishing_chain s this n = ([], Suc n, Returns None)"

definition backing_chain :: "(demo_step, string, nat, string) step_table" where
  "backing_chain s this n = (demo_calls, n, Throws (Signal flow_back))"

text \<open>An input box on which nothing happened yet, and the same box after some typing.\<close>

definition demo_prompt :: "string InputBoxPrompt" where
  "demo_prompt = inputBox_prompt ([] :: demo_step list) demo_box"

definition typed_ok :: "string InputBoxPrompt" where
  "typed_ok = happen_all demo_box [Event (DidChangeValue ''ok'')] demo_prompt"

definition typed_a :: "string InputBoxPrompt" where
  "typed_a = happen_all demo_box [Event (DidChangeValue ''a'')] demo_prompt"

subsection \<open>An invariant of the input box\<close>

text \<open>
  The variable \<open>validating\<close> always holds a promise that was issued; the listener awaiting
  it, if any, is the \<^verbatim>\<open>onDidChangeValue\<close> listener of the text now in the box; and once
  that promise has resolved, the box shows its message.
\<close>

definition fresh_validation :: "'e InputBoxParameters \<Rightarrow> 'i InputBoxPrompt \<Rightarrow> bool" where
  "fresh_validation p b =
     (validating b < issued b \<and>
      (\<forall>a. awaiting b (validating b) = Some a \<longrightarrow> a = ChangeAwait (w_value (input b))) \<and>
      (validating b \<noteq> 0 \<and> awaiting b (validating b) = None \<longrightarrow>
         (\<forall>m. validate p (w_value (input b)) = Inr m \<longrightarrow> w_validationMessage (input b) = m)))"

section \<open>Properties of the navigation loop\<close>

subsection \<open>What each operation leaves alone\<close>

lemma steps_dispose_current [simp]: "steps (dispose_current this) = steps this"
  and invoked_dispose_current [simp]: "invoked (dispose_current this) = invoked this"
  by (simp_all add: dispose_current_def split: option.splits)

lemma steps_make_current [simp]: "steps (make_current w this) = steps this"
  and invoked_make_current [simp]: "invoked (make_current w this) = invoked this"
  by (simp_all add: make_current_def Let_def)

lemma steps_perform [simp]: "steps (perform c this) = steps this"
  and invoked_perform [simp]: "invoked (perform c this) = invoked this"
  by (cases c; simp add: showQuickPick_def showInputBox_def)+

lemma steps_perform_all [simp]: "steps (perform_all cs this) = steps this"
  by (induction cs arbitrary: this) simp_all

lemma invoked_perform_all [simp]: "invoked (perform_all cs this) = invoked this"
  by (induction cs arbitrary: this) simp_all

lemma mark_busy_fields [simp]:
  "steps (mark_busy this) = steps this"
  "invoked (mark_busy this) = invoked this"
  "current (mark_busy this) = current this"
  "ui (mark_busy this) = ui this"
  "length (shell (mark_busy this)) = length (shell this)"
  by (simp_all add: mark_busy_def split: option.splits)

lemma enter_fields [simp]:
  "steps (enter s this) = steps this @ [s]"
  "invoked (enter s this) = invoked this"
  "current (enter s this) = current this"
  "ui (enter s this) = ui this"
  "length (shell (enter s this)) = length (shell this)"
  by (simp_all add: enter_def)

lemma invoke_fields [simp]:
  "steps (invoke s calls this) = steps this"
  "invoked (invoke s calls this) = invoked this @ [s]"
  by (simp_all add: invoke_def)

lemma new_fields [simp]:
  "steps MultiStepInput_new = []"
  "invoked MultiStepInput_new = []"
  "current MultiStepInput_new = None"
  "ui MultiStepInput_new = []"
  "shell MultiStepInput_new = []"
  by (simp_all add: MultiStepInput_new_def)

lemma pop_snoc [simp]: "pop (xs @ [x]) = (Some x, xs)"
  by (simp add: pop_def)

lemma pop_Nil [simp]: "pop [] = (None, [])"
  by (simp add: pop_def)

lemma loop_done:
  "stepThrough_loop body None st this = Some (Fulfilled (), st, dispose_current this)"
  by (subst stepThrough_loop.simps) simp

lemma loop_returns:
  assumes "body s (enter s this) st = (calls, st', Returns nxt)"
  shows "stepThrough_loop body (Some s) st this =
         stepThrough_loop body nxt st' (invoke s calls (enter s this))"
  by (subst stepThrough_loop.simps) (simp add: assms Let_def)

lemma loop_back:
  assumes "body s (enter s this) st = (calls, st', Throws (Signal flow_back))"
  shows "stepThrough_loop body (Some s) st this =
         stepThrough_loop body (fst (pop (steps this))) st'
           ((invoke s calls (enter s this))\<lparr>steps := snd (pop (steps this))\<rparr>)"
  by (subst stepThrough_loop.simps) (simp add: assms Let_def)

lemma loop_resume:
  assumes "body s (enter s this) st = (calls, st', Throws (Signal flow_resume))"
  shows "stepThrough_loop body (Some s) st this =
         stepThrough_loop body (Some s) st' ((invoke s calls (enter s this))\<lparr>steps := steps this\<rparr>)"
  by (subst stepThrough_loop.simps) (simp add: assms Let_def)

lemma loop_cancel:
  assumes "body s (enter s this) st = (calls, st', Throws (Signal flow_cancel))"
  shows "stepThrough_loop body (Some s) st this =
         Some (Fulfilled (), st', dispose_current (invoke s calls (enter s this)))"
  by (subst stepThrough_loop.simps) (simp add: assms Let_def loop_done)

lemma loop_failure:
  assumes "body s (enter s this) st = (calls, st', Throws (Failure err))"
  shows "stepThrough_loop body (Some s) st this =
         Some (RejectedWith err, st', invoke s calls (enter s this))"
  by (subst stepThrough_loop.simps) (simp add: assms Let_def)

lemma current_dispose_current [simp]: "current (dispose_current this) = current this"
  by (simp add: dispose_current_def split: option.splits)

subsection \<open>The current prompt stays active during a run\<close>

lemma count_list_bounded:
  "list_all (\<lambda>u. widget_of u < k) us \<Longrightarrow> count_list us (Dispose k) = 0"
  by (induction us) auto

lemma list_all_bound_mono:
  "list_all (\<lambda>u. widget_of u < k) us \<Longrightarrow> k \<le> k' \<Longrightarrow>
   list_all (\<lambda>u. widget_of u < k') us"
  by (induction us) auto

lemma prompt_active_make_current:
  assumes "prompt_active this"
  shows "prompt_active (make_current w this)"
proof (cases "current this")
  case None
  with assms show ?thesis
    by (auto simp: prompt_active_def make_current_def dispose_current_def Let_def
             intro: count_list_bounded list_all_bound_mono)
next
  case (Some c)
  with assms show ?thesis
    by (auto simp: prompt_active_def make_current_def dispose_current_def Let_def
             intro: count_list_bounded list_all_bound_mono)
qed

lemma prompt_active_perform:
  "prompt_active this \<Longrightarrow> prompt_active (perform c this)"
  by (cases c) (simp_all add: showQuickPick_def showInputBox_def prompt_active_make_current)

lemma prompt_active_perform_all:
  "prompt_active this \<Longrightarrow> prompt_active (perform_all cs this)"
  by (induction cs arbitrary: this) (simp_all add: prompt_active_perform)

lemma prompt_active_enter:
  "prompt_active this \<Longrightarrow> prompt_active (enter s this)"
  by (simp add: prompt_active_def split: option.splits)

lemma prompt_active_invoke:
  "prompt_active this \<Longrightarrow> prompt_active (invoke s calls this)"
  unfolding invoke_def by (rule prompt_active_perform_all) (simp add: prompt_active_def split: option.splits)

lemma prompt_active_steps_update:
  "prompt_active (this\<lparr>steps := xs\<rparr>) = prompt_active this"
  by (simp add: prompt_active_def split: option.splits)

lemma prompt_active_new: "prompt_active MultiStepInput_new"
  by (simp add: prompt_active_def)

lemma dispose_current_once:
  assumes "prompt_active this" and "current this = Some c"
  shows "count_list (ui (dispose_current this)) (Dispose c) = 1"
  using assms by (simp add: prompt_active_def dispose_current_def)


subsection \<open>An invariant of the whole loop\<close>

text \<open>
  A property of the runner that entering and invoking a step keeps, and that does not
  depend on the stack, holds when \<^verbatim>\<open>stepThrough\<close> settles: of the runner itself when
  the promise is rejected, of the runner just before the final disposal when it is
  fulfilled.
\<close>

lemma stepThrough_loop_invariant:
  fixes body :: "('id, 'i, 's, 'e) step_table"
  assumes run: "stepThrough_loop body step st this = Some y"
    and I0: "I this"
    and Istep: "\<And>s calls r. I r \<Longrightarrow> I (invoke s (calls :: ('i, 'e) prompt_call list) (enter s r))"
    and Isteps: "\<And>xs r. I r \<Longrightarrow> I (r\<lparr>steps := xs\<rparr>)"
  shows "\<exists>r. I r \<and> (snd (snd y) = r \<and> (\<exists>e. fst y = RejectedWith e) \<or>
                    snd (snd y) = dispose_current r \<and> fst y = Fulfilled ())"
proof -
  let ?Q = "\<lambda>y. \<exists>r. I r \<and> (snd (snd y) = r \<and> (\<exists>e. fst y = RejectedWith e) \<or>
                    snd (snd y) = dispose_current r \<and> fst y = Fulfilled ())"
  have "body = body \<longrightarrow> I this \<longrightarrow> ?Q y"
  proof (rule stepThrough_loop.raw_induct
           [where P = "\<lambda>b step st this y. b = body \<longrightarrow> I this \<longrightarrow> ?Q y", OF _ run])
    fix f :: "('id, 'i, 's, 'e) step_table \<Rightarrow> 'id option \<Rightarrow> 's \<Rightarrow> ('id, 'i) MultiStepInput
                \<Rightarrow> ((unit, 'e) settled \<times> 's \<times> ('id, 'i) MultiStepInput) option"
    fix b :: "('id, 'i, 's, 'e) step_table" and step st this y
    assume IH: "\<And>b step st this y. f b step st this = Some y \<Longrightarrow> b = body \<longrightarrow> I this \<longrightarrow> ?Q y"
    assume eq: "(case step of
        None \<Rightarrow> Some (Fulfilled (), st, dispose_current this)
      | Some s \<Rightarrow>
          (case b s (enter s this) st of
             (shows, state', result) \<Rightarrow>
               (let this' = invoke s shows (enter s this) in
                case result of
                  Returns next \<Rightarrow> f b next state' this'
                | Throws (Signal flow_back) \<Rightarrow>
                    f b (fst (pop (snd (pop (steps this'))))) state'
                      (this'\<lparr>steps := snd (pop (snd (pop (steps this'))))\<rparr>)
                | Throws (Signal flow_resume) \<Rightarrow>
                    f b (fst (pop (steps this'))) state'
                      (this'\<lparr>steps := snd (pop (steps this'))\<rparr>)
                | Throws (Signal flow_cancel) \<Rightarrow> f b None state' this'
                | Throws (Failure err) \<Rightarrow> Some (RejectedWith err, state', this')))) = Some y"
    show "b = body \<longrightarrow> I this \<longrightarrow> ?Q y"
    proof (intro impI)
      assume b: "b = body" and I: "I this"
      show "?Q y"
      proof (cases step)
        case None
        with eq I show ?thesis by auto
      next
        case (Some s)
        obtain calls st' result where r: "b s (enter s this) st = (calls, st', result)"
          by (cases "b s (enter s this) st") auto
        let ?t = "invoke s calls (enter s this)"
        have It: "I ?t" using I by (rule Istep)
        show ?thesis
        proof (cases result)
          case (Returns nxt)
          with eq Some r have "f b nxt st' ?t = Some y" by (simp add: Let_def)
          from IH[OF this] b It show ?thesis by blast
        next
          case (Throws t)
          show ?thesis
          proof (cases t)
            case (Failure err)
            with eq Some r Throws have "y = (RejectedWith err, st', ?t)" by (simp add: Let_def)
            with It show ?thesis by auto
          next
            case (Signal a)
            show ?thesis
            proof (cases a)
              case flow_back
              with eq Some r Throws Signal
              have "f b (fst (pop (snd (pop (steps ?t))))) st'
                      (?t\<lparr>steps := snd (pop (snd (pop (steps ?t))))\<rparr>) = Some y"
                by (simp add: Let_def)
              from IH[OF this] b Isteps[OF It] show ?thesis by blast
            next
              case flow_cancel
              with eq Some r Throws Signal have "f b None st' ?t = Some y" by (simp add: Let_def)
              from IH[OF this] b It show ?thesis by blast
            next
              case flow_resume
              with eq Some r Throws Signal
              have "f b (fst (pop (steps ?t))) st' (?t\<lparr>steps := snd (pop (steps ?t))\<rparr>) = Some y"
                by (simp add: Let_def)
              from IH[OF this] b Isteps[OF It] show ?thesis by blast
            qed
          qed
        qed
      qed
    qed
  qed
  with I0 show ?thesis by blast
qed

lemma prompt_active_at_settlement:
  fixes body :: "('id, 'i, 's, 'e) step_table"
  assumes "stepThrough_loop body step st this = Some y" and "prompt_active this"
  shows "\<exists>r. prompt_active r \<and>
              (snd (snd y) = r \<and> (\<exists>e. fst y = RejectedWith e) \<or>
               snd (snd y) = dispose_current r \<and> fst y = Fulfilled ())"
  using assms(1)
proof (rule stepThrough_loop_invariant)
  show "prompt_active this" by (rule assms(2))
next
  fix s and calls :: "('i, 'e) prompt_call list" and r :: "('id, 'i) MultiStepInput"
  assume "prompt_active r"
  then show "prompt_active (invoke s calls (enter s r))"
    by (intro prompt_active_invoke prompt_active_enter)
next
  fix xs and r :: "('id, 'i) MultiStepInput"
  assume "prompt_active r"
  then show "prompt_active (r\<lparr>steps := xs\<rparr>)"
    by (simp add: prompt_active_steps_update)
qed

text \<open>
  A run that starts with an active prompt or none: when it is fulfilled, the prompt that
  is current at the end has been disposed exactly once; when it is rejected, that prompt
  has not been disposed at all.
\<close>

lemma fulfilled_run_disposes_once:
  fixes body :: "('id, 'i, 's, 'e) step_table"
  assumes "stepThrough_loop body step st this = Some (Fulfilled (), st', r)"
    and "prompt_active this" and "current r = Some c"
  shows "count_list (ui r) (Dispose c) = 1"
proof -
  from prompt_active_at_settlement[OF assms(1,2)]
  obtain r0 where "prompt_active r0" "r = dispose_current r0" by auto
  with assms(3) show ?thesis
    by (simp add: dispose_current_once)
qed

lemma rejected_run_disposes_nothing:
  fixes body :: "('id, 'i, 's, 'e) step_table"
  assumes "stepThrough_loop body step st this = Some (RejectedWith e, st', r)"
    and "prompt_active this" and "current r = Some c"
  shows "count_list (ui r) (Dispose c) = 0"
proof -
  from prompt_active_at_settlement[OF assms(1,2)]
  have "prompt_active r" by auto
  with assms(3) show ?thesis
    by (simp add: prompt_active_def)
qed

subsection \<open>Back navigation\<close>

text \<open>
  C1. When step \<open>s\<close> throws \<^verbatim>\<open>InputFlowAction.back\<close>, the first \<^verbatim>\<open>pop\<close> takes \<open>s\<close> itself
  off the stack and the second \<^verbatim>\<open>pop\<close> takes the step that was on top before \<open>s\<close> was
  pushed; that step becomes the current step, which the next iteration pushes and invokes
  again. In a chain where step \<open>a\<close> returns step \<open>b\<close> and \<open>b\<close> throws back, started on
  a new runner, the run continues by invoking \<open>a\<close> a second time: the steps invoked are
  then \<open>a\<close>, \<open>b\<close>, \<open>a\<close>, no other step, and the stack is \<open>[a]\<close>.
\<close>

theorem back_reenters_prior_step:
  fixes body :: "('id, 'i, 's, 'e) step_table"
  shows
    "(body s (enter s this) st = (calls, st', Throws (Signal flow_back)) \<longrightarrow>
        pop (steps (invoke s calls (enter s this))) = (Some s, steps this) \<and>
        stepThrough_loop body (Some s) st this =
          stepThrough_loop body (fst (pop (steps this))) st'
            ((invoke s calls (enter s this))\<lparr>steps := snd (pop (steps this))\<rparr>))
     \<and>
     ((\<forall>r. body a r st0 = (callsA, st1, Returns (Some b))) \<and>
      (\<forall>r. body b r st1 = (callsB, st2, Throws (Signal flow_back))) \<longrightarrow>
        (\<exists>r2. run body a st0 MultiStepInput_new = stepThrough_loop body (Some a) st2 r2 \<and>
              invoked r2 = [a, b] \<and> steps r2 = [] \<and>
              steps (enter a r2) = [a] \<and>
              (\<forall>calls'. invoked (invoke a calls' (enter a r2)) = [a, b, a] \<and>
                        steps (invoke a calls' (enter a r2)) = [a])))"
proof (intro conjI impI)
  show "pop (steps (invoke s calls (enter s this))) = (Some s, steps this)"
    by simp
next
  assume "body s (enter s this) st = (calls, st', Throws (Signal flow_back))"
  then show "stepThrough_loop body (Some s) st this =
          stepThrough_loop body (fst (pop (steps this))) st'
            ((invoke s calls (enter s this))\<lparr>steps := snd (pop (steps this))\<rparr>)"
    by (rule loop_back)
next
  assume h: "(\<forall>r. body a r st0 = (callsA, st1, Returns (Some b))) \<and>
      (\<forall>r. body b r st1 = (callsB, st2, Throws (Signal flow_back)))"
  let ?n = "MultiStepInput_new :: ('id, 'i) MultiStepInput"
  let ?r1 = "invoke a callsA (enter a ?n)"
  let ?r2 = "(invoke b callsB (enter b ?r1))\<lparr>steps := snd (pop (steps ?r1))\<rparr>"
  have s1: "steps ?r1 = [a]" by simp
  have e1: "run body a st0 ?n = stepThrough_loop body (Some b) st1 ?r1"
    unfolding run_def stepThrough_def using h by (intro loop_returns) simp
  have e2: "stepThrough_loop body (Some b) st1 ?r1 =
            stepThrough_loop body (fst (pop (steps ?r1))) st2 ?r2"
    using h by (intro loop_back) simp
  have e3: "fst (pop (steps ?r1)) = Some a" by (simp add: s1 pop_def)
  have "run body a st0 ?n = stepThrough_loop body (Some a) st2 ?r2"
    using e1 e2 e3 by simp
  moreover have "invoked ?r2 = [a, b]" by simp
  moreover have "steps ?r2 = []" by (simp add: s1 pop_def)
  ultimately show "\<exists>r2. run body a st0 ?n = stepThrough_loop body (Some a) st2 r2 \<and>
              invoked r2 = [a, b] \<and> steps r2 = [] \<and>
              steps (enter a r2) = [a] \<and>
              (\<forall>calls'. invoked (invoke a calls' (enter a r2)) = [a, b, a] \<and>
                        steps (invoke a calls' (enter a r2)) = [a])"
    by (intro exI[of _ ?r2]) simp
qed


theorem back_reenters_prior_step_witness:
  "settled_as (run chain_ABC StepA 0 MultiStepInput_new) = Some (Fulfilled ()) \<and>
   map_option invoked (runner_after (run chain_ABC StepA 0 MultiStepInput_new))
     = Some [StepA, StepB, StepA] \<and>
   map_option steps (runner_after (run chain_ABC StepA 0 MultiStepInput_new)) = Some [StepA]"
proof -
  have hA: "\<forall>r. chain_ABC StepA r 0 = (demo_calls, 0, Returns (Some StepB))"
    by (simp add: chain_ABC_def)
  have hB: "\<forall>r. chain_ABC StepB r 0 = (demo_calls, Suc 0, Throws (Signal flow_back))"
    by (simp add: chain_ABC_def)
  from back_reenters_prior_step
         [where body = chain_ABC and a = StepA and b = StepB and ?st0.0 = 0 and ?st1.0 = 0
            and ?st2.0 = "Suc 0" and callsA = "demo_calls"
            and callsB = "demo_calls"]
       hA hB
  obtain r2 where r2: "run chain_ABC StepA 0 MultiStepInput_new =
        stepThrough_loop chain_ABC (Some StepA) (Suc 0) r2"
      "invoked r2 = [StepA, StepB]" "steps r2 = []"
    by blast
  have "stepThrough_loop chain_ABC (Some StepA) (Suc 0) r2 =
        stepThrough_loop chain_ABC None (Suc 0) (invoke StepA demo_calls (enter StepA r2))"
    using loop_returns[of chain_ABC StepA r2 "Suc 0" "demo_calls" "Suc 0" None]
    by (simp add: chain_ABC_def)
  then show ?thesis
    by (simp add: r2 loop_done settled_as_def runner_after_def)
qed

text \<open>
  C6. When the step entered on an empty stack throws \<^verbatim>\<open>InputFlowAction.back\<close>, both
  \<^verbatim>\<open>pop\<close>s leave no step to go back to: the loop ends, no step is invoked again and the
  promise of \<^verbatim>\<open>run\<close> is fulfilled.
\<close>

theorem back_from_first_step_terminates:
  fixes body :: "('id, 'i, 's, 'e) step_table"
  assumes "steps this = []"
    and "body s (enter s this) st = (calls, st', Throws (Signal flow_back))"
  shows "\<exists>r. run body s st this = Some (Fulfilled (), st', r) \<and>
             invoked r = invoked this @ [s] \<and> steps r = []"
proof -
  let ?r' = "(invoke s calls (enter s this))\<lparr>steps := snd (pop (steps this))\<rparr>"
  have "run body s st this = stepThrough_loop body (fst (pop (steps this))) st' ?r'"
    unfolding run_def stepThrough_def using assms(2) by (rule loop_back)
  also have "\<dots> = Some (Fulfilled (), st', dispose_current ?r')"
    by (simp add: assms(1) loop_done)
  finally show ?thesis
    by (intro exI[of _ "dispose_current ?r'"]) (simp add: assms(1))
qed

theorem back_from_first_step_terminates_witness:
  "settled_as (run backing_chain StepA 0 MultiStepInput_new) = Some (Fulfilled ()) \<and>
   map_option invoked (runner_after (run backing_chain StepA 0 MultiStepInput_new)) = Some [StepA] \<and>
   map_option steps (runner_after (run backing_chain StepA 0 MultiStepInput_new)) = Some []"
proof -
  have h1: "steps (MultiStepInput_new :: (demo_step, string) MultiStepInput) = []"
    by simp
  have h2: "backing_chain StepA (enter StepA MultiStepInput_new) 0
              = (demo_calls, 0, Throws (Signal flow_back))"
    by (simp add: backing_chain_def)
  from back_from_first_step_terminates
         [where body = backing_chain and s = StepA and this = MultiStepInput_new and st = 0
            and calls = demo_calls and st' = 0] h1 h2
  show ?thesis
    by (auto simp: settled_as_def runner_after_def)
qed

subsection \<open>Cancellation and failure\<close>

text \<open>
  C3. Whatever the stack and the runner are when step \<open>s\<close> is entered, if \<open>s\<close> throws
  \<^verbatim>\<open>InputFlowAction.cancel\<close> then the promise of \<^verbatim>\<open>stepThrough\<close> is fulfilled, \<open>s\<close> is the
  last step invoked, and the loop adds one call to the prompt current at that moment, if
  there is one: its disposal. When the prompt current on entry was active, that is the one
  and only disposal of the prompt.
\<close>

theorem cancel_terminates_run:
  fixes body :: "('id, 'i, 's, 'e) step_table"
  assumes "body s (enter s this) st = (calls, st', Throws (Signal flow_cancel))"
  shows "\<exists>r. stepThrough_loop body (Some s) st this = Some (Fulfilled (), st', r) \<and>
             invoked r = invoked this @ [s] \<and>
             current r = current (invoke s calls (enter s this)) \<and>
             ui r = ui (invoke s calls (enter s this)) @
                      (case current r of None \<Rightarrow> [] | Some c \<Rightarrow> [Dispose c]) \<and>
             (prompt_active this \<longrightarrow>
                (case current r of None \<Rightarrow> True
                 | Some c \<Rightarrow> count_list (ui r) (Dispose c) = 1))"
proof -
  let ?r' = "invoke s calls (enter s this)"
  have run: "stepThrough_loop body (Some s) st this = Some (Fulfilled (), st', dispose_current ?r')"
    using assms by (rule loop_cancel)
  have ui: "ui (dispose_current ?r') =
            ui ?r' @ (case current (dispose_current ?r') of None \<Rightarrow> [] | Some c \<Rightarrow> [Dispose c])"
    by (simp add: dispose_current_def split: option.splits)
  have once: "case current (dispose_current ?r') of None \<Rightarrow> True
              | Some c \<Rightarrow> count_list (ui (dispose_current ?r')) (Dispose c) = 1"
    if "prompt_active this"
  proof -
    from that have "prompt_active ?r'"
      by (intro prompt_active_invoke prompt_active_enter)
    then show ?thesis
      by (auto split: option.splits dest: dispose_current_once)
  qed
  show ?thesis
    using run ui once by (intro exI[of _ "dispose_current ?r'"]) simp
qed

theorem cancel_terminates_run_witness:
  "prompt_active (invoke StepA demo_calls (enter StepA MultiStepInput_new)) \<and>
   settled_as (run cancelling_chain StepA 0 MultiStepInput_new) = Some (Fulfilled ()) \<and>
   map_option invoked (runner_after (run cancelling_chain StepA 0 MultiStepInput_new))
     = Some [StepA, StepB] \<and>
   map_option ui (runner_after (run cancelling_chain StepA 0 MultiStepInput_new))
     = Some [Show 0, Dispose 0, Show 1, Dispose 1]"
proof -
  let ?r1 = "invoke StepA demo_calls (enter StepA MultiStepInput_new)"
  have e1: "run cancelling_chain StepA 0 MultiStepInput_new =
            stepThrough_loop cancelling_chain (Some StepB) 0 ?r1"
    unfolding run_def stepThrough_def
    by (rule loop_returns) (simp add: cancelling_chain_def)
  have hB: "cancelling_chain StepB (enter StepB ?r1) 0 = (demo_calls, 0, Throws (Signal flow_cancel))"
    by (simp add: cancelling_chain_def)
  from cancel_terminates_run
         [where body = cancelling_chain and s = StepB and this = ?r1 and st = 0
            and calls = demo_calls and st' = 0] hB
  obtain r where r: "stepThrough_loop cancelling_chain (Some StepB) 0 ?r1 = Some (Fulfilled (), 0, r)"
      "invoked r = invoked ?r1 @ [StepB]"
      "current r = current (invoke StepB demo_calls (enter StepB ?r1))"
      "ui r = ui (invoke StepB demo_calls (enter StepB ?r1)) @
                      (case current r of None \<Rightarrow> [] | Some c \<Rightarrow> [Dispose c])"
      "prompt_active ?r1 \<longrightarrow>
         (case current r of None \<Rightarrow> True | Some c \<Rightarrow> count_list (ui r) (Dispose c) = 1)"
    by blast
  have act: "prompt_active ?r1"
    by (intro prompt_active_invoke prompt_active_enter prompt_active_new)
  have "current (invoke StepB demo_calls (enter StepB ?r1)) = Some 1"
    by (simp add: invoke_def enter_def mark_busy_def demo_calls_def showQuickPick_def
          make_current_def dispose_current_def MultiStepInput_new_def Let_def)
  moreover have "ui (invoke StepB demo_calls (enter StepB ?r1)) = [Show 0, Dispose 0, Show 1]"
    by (simp add: invoke_def enter_def mark_busy_def demo_calls_def showQuickPick_def
          make_current_def dispose_current_def MultiStepInput_new_def Let_def)
  ultimately show ?thesis
    using e1 r act by (simp add: settled_as_def runner_after_def)
qed

text \<open>
  C2. A step that shows a quick pick and then throws a failure that is no control signal:
  the promise of \<^verbatim>\<open>run\<close> is rejected with that failure after a single invocation, and the
  quick pick is still the current prompt, shown and never disposed, because the
  \<^verbatim>\<open>throw err\<close> of the \<^verbatim>\<open>catch\<close> block leaves \<^verbatim>\<open>stepThrough\<close> before the disposal that
  follows the loop.
\<close>

theorem failure_leaves_prompt_undisposed:
  "settled_as (run failing_chain StepA 0 MultiStepInput_new) = Some (RejectedWith ''boom'') \<and>
   map_option current (runner_after (run failing_chain StepA 0 MultiStepInput_new)) = Some (Some 0) \<and>
   map_option ui (runner_after (run failing_chain StepA 0 MultiStepInput_new)) = Some [Show 0]"
proof -
  have "run failing_chain StepA 0 MultiStepInput_new =
        Some (RejectedWith ''boom'', 0, invoke StepA demo_calls (enter StepA MultiStepInput_new))"
    unfolding run_def stepThrough_def
    by (rule loop_failure) (simp add: failing_chain_def)
  then show ?thesis
    by (simp add: settled_as_def runner_after_def invoke_def enter_def mark_busy_def demo_calls_def
          showQuickPick_def make_current_def dispose_current_def MultiStepInput_new_def Let_def)
qed

subsection \<open>The life of the step stack\<close>

text \<open>
  C5, as stated, fails: after a run of a single step that returns no next step on a new
  runner, that step is still on the stack.
\<close>

theorem stack_survives_run_counterexample:
  "map_option steps (runner_after (run finishing_chain StepA 0 MultiStepInput_new)) = Some [StepA] \<and>
   map_option steps (runner_after (run finishing_chain StepA 0 MultiStepInput_new)) \<noteq> Some []"
proof -
  have "run finishing_chain StepA 0 MultiStepInput_new =
        stepThrough_loop finishing_chain None (Suc 0) (invoke StepA ([] :: (string, string) prompt_call list) (enter StepA MultiStepInput_new))"
    unfolding run_def stepThrough_def
    by (rule loop_returns) (simp add: finishing_chain_def)
  then show ?thesis
    by (simp add: loop_done runner_after_def)
qed

text \<open>
  C5, amended. The stack is empty in a newly constructed runner, and it is not emptied
  when the run ends because the step entered returns no next step, throws
  \<^verbatim>\<open>InputFlowAction.cancel\<close> or throws a failure: on each of these three exits the stack
  the runner keeps is the stack before that step with the step on top.
\<close>

theorem stack_kept_after_termination:
  fixes body :: "('id, 'i, 's, 'e) step_table"
  shows "steps (MultiStepInput_new :: ('id, 'i) MultiStepInput) = [] \<and>
    (body s (enter s this) st = (calls, st', how) \<and>
     (how = Returns None \<or> how = Throws (Signal flow_cancel) \<or> how = Throws (Failure err)) \<longrightarrow>
       (\<exists>res r. stepThrough_loop body (Some s) st this = Some (res, st', r) \<and>
                steps r = steps this @ [s]))"
proof (intro conjI impI)
  show "steps (MultiStepInput_new :: ('id, 'i) MultiStepInput) = []" by simp
next
  assume h: "body s (enter s this) st = (calls, st', how) \<and>
     (how = Returns None \<or> how = Throws (Signal flow_cancel) \<or> how = Throws (Failure err))"
  let ?r' = "invoke s calls (enter s this)"
  from h consider "how = Returns None" | "how = Throws (Signal flow_cancel)"
    | "how = Throws (Failure err)" by blast
  then show "\<exists>res r. stepThrough_loop body (Some s) st this = Some (res, st', r) \<and>
                steps r = steps this @ [s]"
  proof cases
    case 1
    with h have "stepThrough_loop body (Some s) st this = stepThrough_loop body None st' ?r'"
      by (intro loop_returns) simp
    then show ?thesis by (simp add: loop_done)
  next
    case 2
    with h have "stepThrough_loop body (Some s) st this = Some (Fulfilled (), st', dispose_current ?r')"
      by (intro loop_cancel) simp
    then show ?thesis by simp
  next
    case 3
    with h have "stepThrough_loop body (Some s) st this = Some (RejectedWith err, st', ?r')"
      by (intro loop_failure) simp
    then show ?thesis by simp
  qed
qed

theorem stack_kept_after_termination_witness:
  "map_option steps (runner_after (stepThrough_loop failing_chain (Some StepB) 0
      ((MultiStepInput_new :: (demo_step, string) MultiStepInput)\<lparr>steps := [StepA]\<rparr>)))
     = Some [StepA, StepB]"
proof -
  let ?r0 = "(MultiStepInput_new :: (demo_step, string) MultiStepInput)\<lparr>steps := [StepA]\<rparr>"
  have h: "failing_chain StepB (enter StepB ?r0) 0 = (demo_calls, 0, Throws (Failure ''boom'')) \<and>
     (Throws (Failure ''boom'') = Returns None \<or>
      (Throws (Failure ''boom'') :: (demo_step, string) completion) = Throws (Signal flow_cancel) \<or>
      (Throws (Failure ''boom'') :: (demo_step, string) completion) = Throws (Failure ''boom''))"
    by (simp add: failing_chain_def)
  from stack_kept_after_termination
         [where body = failing_chain and s = StepB and this = ?r0 and st = 0
            and calls = demo_calls and st' = 0 and how = "Throws (Failure ''boom'')"
            and err = "''boom''"] h
  show ?thesis
    by (auto simp: runner_after_def)
qed

section \<open>Properties of the prompts\<close>

subsection \<open>One prompt at a time\<close>

lemma never_two_from_append:
  "never_two_from vis (us @ vs) =
     (never_two_from vis us \<and> never_two_from (foldl ui_step vis us) vs)"
  by (induction us arbitrary: vis) (auto simp: never_two_from.simps(1)[symmetric] elim: never_two_from.elims)

lemma never_two_from_head: "never_two_from vis us \<Longrightarrow> length vis \<le> 1"
  by (cases us) simp_all

lemma never_two_visible_end: "never_two_visible us \<Longrightarrow> length (visible us) \<le> 1"
  unfolding never_two_visible_def visible_def
  using never_two_from_append[of "[]" us "[]"] by simp

lemma removeAll_only: "set vis \<subseteq> {c} \<Longrightarrow> removeAll c vis = []"
  by (induction vis) auto

lemma single_prompt_dispose_current:
  assumes "single_prompt this"
  shows "single_prompt (dispose_current this)"
proof (cases "current this")
  case None
  with assms show ?thesis by (simp add: dispose_current_def)
next
  case (Some c)
  with assms have nt: "never_two_visible (ui this)" and sub: "set (visible (ui this)) \<subseteq> {c}"
    by (simp_all add: single_prompt_def)
  have vis: "visible (ui this @ [Dispose c]) = []"
    using sub by (simp add: visible_def ui_step_def removeAll_only)
  have "never_two_visible (ui this @ [Dispose c])"
    using nt never_two_visible_end[OF nt] sub
    by (simp add: never_two_visible_def never_two_from_append ui_step_def removeAll_only
          visible_def[symmetric])
  with vis Some show ?thesis
    by (simp add: single_prompt_def dispose_current_def)
qed

lemma ui_make_current:
  "ui (make_current w this) =
     ui this @ (case current this of None \<Rightarrow> [] | Some c \<Rightarrow> [Dispose c]) @ [Show (length (shell this))]"
  by (simp add: make_current_def dispose_current_def Let_def split: option.splits)

lemma current_make_current [simp]:
  "current (make_current w this) = Some (length (shell this))"
  by (simp add: make_current_def dispose_current_def Let_def split: option.splits)

lemma shell_make_current [simp]:
  "shell (make_current w this) = shell this @ [w]"
  by (simp add: make_current_def dispose_current_def Let_def split: option.splits)

lemma single_prompt_make_current:
  assumes "single_prompt this"
  shows "single_prompt (make_current w this) \<and>
         visible (ui (make_current w this)) = [length (shell this)]"
proof -
  let ?d = "dispose_current this"
  have d: "single_prompt ?d" using assms by (rule single_prompt_dispose_current)
  have v: "visible (ui ?d) = []"
  proof (cases "current this")
    case None
    with assms show ?thesis by (simp add: single_prompt_def dispose_current_def)
  next
    case (Some c)
    with assms show ?thesis
      by (simp add: single_prompt_def dispose_current_def visible_def ui_step_def removeAll_only)
  qed
  have u: "ui (make_current w this) = ui ?d @ [Show (length (shell this))]"
    by (simp add: make_current_def dispose_current_def Let_def split: option.splits)
  have nt: "never_two_visible (ui ?d)" using d by (simp add: single_prompt_def)
  have v': "visible (ui (make_current w this)) = [length (shell this)]"
    using v by (simp add: u visible_def ui_step_def)
  have "never_two_visible (ui (make_current w this))"
    using nt v
    by (simp add: u never_two_visible_def never_two_from_append visible_def[symmetric] ui_step_def)
  with v' show ?thesis by (simp add: single_prompt_def)
qed

lemma single_prompt_new: "single_prompt MultiStepInput_new"
  by (simp add: single_prompt_def never_two_visible_def visible_def)

lemma single_prompt_steps_update:
  "single_prompt (r\<lparr>steps := xs\<rparr>) = single_prompt r"
  by (simp add: single_prompt_def cong: option.case_cong)

lemma single_prompt_invoked_update:
  "single_prompt (r\<lparr>invoked := xs\<rparr>) = single_prompt r"
  by (simp add: single_prompt_def cong: option.case_cong)

lemma single_prompt_enter:
  "single_prompt (enter s r) = single_prompt r"
  by (simp add: single_prompt_def cong: option.case_cong)

lemma single_prompt_perform:
  "single_prompt this \<Longrightarrow> single_prompt (perform c this)"
  by (cases c) (simp_all add: showQuickPick_def showInputBox_def single_prompt_make_current)

lemma single_prompt_perform_all:
  "single_prompt this \<Longrightarrow> single_prompt (perform_all cs this)"
  by (induction cs arbitrary: this) (simp_all add: single_prompt_perform)

lemma single_prompt_invoke_enter:
  assumes "single_prompt this"
  shows "single_prompt (invoke s calls (enter s this))"
  unfolding invoke_def
  by (rule single_prompt_perform_all)
     (simp add: single_prompt_invoked_update single_prompt_enter assms)

lemma single_prompt_run:
  fixes body :: "('id, 'i, 's, 'e) step_table"
  assumes "run body start st this = Some y" and "single_prompt this"
  shows "single_prompt (snd (snd y))"
proof -
  from assms(1) have "stepThrough_loop body (Some start) st this = Some y"
    by (simp add: run_def stepThrough_def)
  then have "\<exists>r. single_prompt r \<and>
              (snd (snd y) = r \<and> (\<exists>e. fst y = RejectedWith e) \<or>
               snd (snd y) = dispose_current r \<and> fst y = Fulfilled ())"
  proof (rule stepThrough_loop_invariant)
    show "single_prompt this" by (rule assms(2))
  next
    fix s and calls :: "('i, 'e) prompt_call list" and r :: "('id, 'i) MultiStepInput"
    assume "single_prompt r"
    then show "single_prompt (invoke s calls (enter s r))"
      by (rule single_prompt_invoke_enter)
  next
    fix xs and r :: "('id, 'i) MultiStepInput"
    assume "single_prompt r"
    then show "single_prompt (r\<lparr>steps := xs\<rparr>)"
      by (simp add: single_prompt_steps_update)
  qed
  then obtain r where "single_prompt r" "snd (snd y) = r \<or> snd (snd y) = dispose_current r"
    by blast
  then show ?thesis
    using single_prompt_dispose_current by auto
qed

text \<open>
  C8. Both \<^verbatim>\<open>showQuickPick\<close> and \<^verbatim>\<open>showInputBox\<close> call \<^verbatim>\<open>dispose()\<close> on the current prompt,
  if there is one, and only then \<^verbatim>\<open>show()\<close> on the new widget. A new runner has nothing on
  screen; if at most one prompt was ever on screen and it is the current one, the same is
  true after either operation, with the new widget alone on screen; and it is true of the
  runner that a finished \<^verbatim>\<open>run\<close> leaves.
\<close>

theorem one_prompt_at_a_time:
  fixes this :: "('id, 'i) MultiStepInput"
    and p :: "'i IQuickPickParameters" and q :: "'e InputBoxParameters"
    and body :: "('id, 'i, 's, 'e) step_table"
  shows
    "ui (showQuickPick p this) =
       ui this @ (case current this of None \<Rightarrow> [] | Some c \<Rightarrow> [Dispose c])
               @ [Show (length (shell this))] \<and>
     ui (showInputBox q this) =
       ui this @ (case current this of None \<Rightarrow> [] | Some c \<Rightarrow> [Dispose c])
               @ [Show (length (shell this))] \<and>
     single_prompt (MultiStepInput_new :: ('id, 'i) MultiStepInput) \<and>
     (single_prompt this \<longrightarrow>
        single_prompt (showQuickPick p this) \<and>
        visible (ui (showQuickPick p this)) = [length (shell this)] \<and>
        single_prompt (showInputBox q this) \<and>
        visible (ui (showInputBox q this)) = [length (shell this)]) \<and>
     (single_prompt this \<and> run body start st this = Some (res, st', r) \<longrightarrow>
        single_prompt r)"
proof (intro conjI impI)
  show "ui (showQuickPick p this) =
       ui this @ (case current this of None \<Rightarrow> [] | Some c \<Rightarrow> [Dispose c])
               @ [Show (length (shell this))]"
    by (simp add: showQuickPick_def ui_make_current)
  show "ui (showInputBox q this) =
       ui this @ (case current this of None \<Rightarrow> [] | Some c \<Rightarrow> [Dispose c])
               @ [Show (length (shell this))]"
    by (simp add: showInputBox_def ui_make_current)
  show "single_prompt (MultiStepInput_new :: ('id, 'i) MultiStepInput)"
    by (rule single_prompt_new)
next
  assume sp: "single_prompt this"
  show "single_prompt (showQuickPick p this)"
    and "visible (ui (showQuickPick p this)) = [length (shell this)]"
    using single_prompt_make_current[OF sp] by (simp_all add: showQuickPick_def)
  show "single_prompt (showInputBox q this)"
    and "visible (ui (showInputBox q this)) = [length (shell this)]"
    using single_prompt_make_current[OF sp] by (simp_all add: showInputBox_def)
next
  assume "single_prompt this \<and> run body start st this = Some (res, st', r)"
  then show "single_prompt r"
    using single_prompt_run[of body start st this "(res, st', r)"] by simp
qed

theorem one_prompt_at_a_time_witness:
  "single_prompt (showQuickPick demo_pick (MultiStepInput_new :: (demo_step, string) MultiStepInput)) \<and>
   ui (showInputBox demo_box
        (showQuickPick demo_pick (MultiStepInput_new :: (demo_step, string) MultiStepInput)))
     = [Show 0, Dispose 0, Show 1] \<and>
   visible (ui (showInputBox demo_box
        (showQuickPick demo_pick (MultiStepInput_new :: (demo_step, string) MultiStepInput))))
     = [1] \<and>
   map_option single_prompt (runner_after (run failing_chain StepA 0 MultiStepInput_new))
     = Some True"
proof -
  let ?n = "MultiStepInput_new :: (demo_step, string) MultiStepInput"
  let ?r = "showQuickPick demo_pick ?n"
  let ?e = "invoke StepA demo_calls (enter StepA ?n)"
  have run: "run failing_chain StepA 0 ?n = Some (RejectedWith ''boom'', 0, ?e)"
    unfolding run_def stepThrough_def
    by (rule loop_failure) (simp add: failing_chain_def)
  note a = one_prompt_at_a_time [where this = ?n and p = demo_pick and q = demo_box
             and body = failing_chain and start = StepA and st = 0
             and res = "RejectedWith ''boom''" and st' = 0 and r = ?e]
  note b = one_prompt_at_a_time [where this = ?r and p = demo_pick and q = demo_box
             and body = failing_chain and start = StepA and st = 0
             and res = "RejectedWith ''boom''" and st' = 0 and r = ?e]
  have sp: "single_prompt ?r" using a by blast
  have whole: "single_prompt ?e" using a run by blast
  have c: "current ?r = Some 0" "length (shell ?r) = 1" "ui ?r = [Show 0]"
    by (simp_all add: showQuickPick_def ui_make_current)
  from b sp have "visible (ui (showInputBox demo_box ?r)) = [length (shell ?r)]"
    and "ui (showInputBox demo_box ?r) = ui ?r @ (case current ?r of None \<Rightarrow> [] | Some c \<Rightarrow> [Dispose c])
               @ [Show (length (shell ?r))]"
    by blast+
  with sp c whole run show ?thesis by (simp add: runner_after_def)
qed

subsection \<open>The Back button of a quick pick\<close>

text \<open>
  C7, as stated, fails: with a single step on the stack, a quick pick whose caller passes
  \<^verbatim>\<open>QuickInputButtons.Back\<close> among its own buttons has the Back button.
\<close>

theorem quickPick_back_button_counterexample:
  "length (steps (enter StepA (MultiStepInput_new :: (demo_step, string) MultiStepInput))) = 1 \<and>
   Back \<in> set (w_buttons (shell (showQuickPick demo_pick_with_back
       (enter StepA (MultiStepInput_new :: (demo_step, string) MultiStepInput))) ! 0))"
  by (simp add: showQuickPick_def quickPick_input_def prompt_buttons_def demo_pick_with_back_def
        demo_pick_def enter_def mark_busy_def MultiStepInput_new_def)

text \<open>
  C7, amended. The buttons of the widget that \<^verbatim>\<open>showQuickPick\<close> makes current are
  \<^verbatim>\<open>QuickInputButtons.Back\<close>, when the stack holds more than one step, followed by the
  buttons of the caller; so, when the caller does not pass the Back button itself, the
  prompt has the Back button exactly when the stack holds more than one step. Pressing it
  while the prompt is pending rejects the promise of the prompt with
  \<^verbatim>\<open>InputFlowAction.back\<close>.
\<close>

theorem quickPick_back_button:
  fixes this :: "('id, 'i) MultiStepInput" and p :: "'i IQuickPickParameters"
  shows
    "current (showQuickPick p this) = Some (length (shell this)) \<and>
     w_buttons (shell (showQuickPick p this) ! length (shell this)) =
       (if 1 < length (steps this) then [Back] else []) @
       (case qp_buttons p of None \<Rightarrow> [] | Some l \<Rightarrow> l) \<and>
     (Back \<notin> set (case qp_buttons p of None \<Rightarrow> [] | Some l \<Rightarrow> l) \<longrightarrow>
        (Back \<in> set (w_buttons (shell (showQuickPick p this) ! length (shell this)))
           \<longleftrightarrow> 1 < length (steps this))) \<and>
     quickPick_on p w (DidTriggerButton Back) None = Some (RejectedWith flow_back)"
  by (auto simp: showQuickPick_def quickPick_input_def prompt_buttons_def quickPick_on_def
        reject_def split: option.splits)

theorem quickPick_back_button_witness:
  "Back \<in> set (w_buttons (shell (showQuickPick demo_pick
       ((MultiStepInput_new :: (demo_step, string) MultiStepInput)\<lparr>steps := [StepA, StepB]\<rparr>)) ! 0)) \<and>
   Back \<notin> set (w_buttons (shell (showQuickPick demo_pick
       ((MultiStepInput_new :: (demo_step, string) MultiStepInput)\<lparr>steps := [StepA]\<rparr>)) ! 0)) \<and>
   quickPick_on demo_pick (quickPick_input [StepA, StepB] demo_pick)
       (DidTriggerButton Back) None = Some (RejectedWith flow_back)"
proof -
  let ?two = "(MultiStepInput_new :: (demo_step, string) MultiStepInput)\<lparr>steps := [StepA, StepB]\<rparr>"
  let ?one = "(MultiStepInput_new :: (demo_step, string) MultiStepInput)\<lparr>steps := [StepA]\<rparr>"
  have nb: "Back \<notin> set (case qp_buttons demo_pick of None \<Rightarrow> [] | Some l \<Rightarrow> l)"
    by (simp add: demo_pick_def)
  from quickPick_back_button [where this = ?two and p = demo_pick
         and w = "quickPick_input [StepA, StepB] demo_pick"] nb
       quickPick_back_button [where this = ?one and p = demo_pick]
  show ?thesis by simp
qed

subsection \<open>Submitting an input box\<close>

lemma inputBox_on_keeps_awaiting:
  assumes "awaiting b pid = Some a" and "pid < issued b"
  shows "awaiting (inputBox_on p ev b) pid = Some a \<and> pid < issued (inputBox_on p ev b)"
  using assms by (cases ev) (auto simp: inputBox_on_def)

lemma validation_settled_keeps_awaiting:
  assumes "awaiting b pid = Some a" and "pid < issued b" and "q \<noteq> pid"
  shows "awaiting (validation_settled p q b) pid = Some a \<and>
         pid < issued (validation_settled p q b)"
  using assms
  by (auto simp: validation_settled_def split: option.splits awaiter.splits sum.splits)

lemma happen_keeps_awaiting:
  assumes "awaiting b pid = Some a" and "pid < issued b" and "h \<noteq> Settle pid"
  shows "awaiting (happen p b h) pid = Some a \<and> pid < issued (happen p b h)"
  using assms
  by (cases h) (simp_all add: inputBox_on_keeps_awaiting validation_settled_keeps_awaiting)

lemma happen_all_keeps_awaiting:
  assumes "awaiting b pid = Some a" and "pid < issued b" and "Settle pid \<notin> set hs"
  shows "awaiting (happen_all p hs b) pid = Some a \<and> pid < issued (happen_all p hs b)"
  using assms
proof (induction hs arbitrary: b)
  case Nil
  then show ?case by (simp add: happen_all_def)
next
  case (Cons h hs)
  from Cons.prems have "h \<noteq> Settle pid" and rest: "Settle pid \<notin> set hs" by auto
  with Cons.prems have "awaiting (happen p b h) pid = Some a \<and> pid < issued (happen p b h)"
    by (intro happen_keeps_awaiting) simp_all
  with Cons.IH[of "happen p b h"] rest show ?case
    by (simp add: happen_all_def)
qed

lemma accept_settled_fields:
  assumes "awaiting b pid = Some (AcceptAwait v)" and "validate p v = Inr m"
  shows "w_enabled (input (validation_settled p pid b))"
    and "\<not> w_busy (input (validation_settled p pid b))"
    and "outcome (validation_settled p pid b) =
           (if truthy m then outcome b else resolve (Text v) (outcome b))"
  using assms by (simp_all add: validation_settled_def)

lemma demo_validate_simps [simp]:
  "validate demo_box ''a'' = Inr (Some ''too short'')"
  "validate demo_box ''ab'' = Inr None"
  "validate demo_box ''ok'' = Inr None"
  by (simp_all add: demo_box_def demo_validate_def)

text \<open>
  C9. \<^verbatim>\<open>onDidAccept\<close> on a pending input box disables the box and marks it busy, and the
  prompt stays pending while \<^verbatim>\<open>validate\<close> runs on the text of the box. When the validation
  resolves with a truthy message the prompt is still pending and the box is enabled and
  no longer busy; when it resolves with no message (or the empty one) the prompt is
  fulfilled with that text.
\<close>

theorem accept_validates_before_resolving:
  fixes p :: "'e InputBoxParameters" and b :: "'i InputBoxPrompt"
  shows
    "outcome b = None \<longrightarrow>
     (let b1 = inputBox_on p DidAccept b;
          b2 = validation_settled p (issued b) b1;
          v = w_value (input b)
      in \<not> w_enabled (input b1) \<and> w_busy (input b1) \<and> outcome b1 = None \<and>
         (validate p v = Inr m \<and> truthy m \<longrightarrow>
            outcome b2 = None \<and> w_enabled (input b2) \<and> \<not> w_busy (input b2)) \<and>
         (validate p v = Inr m \<and> \<not> truthy m \<longrightarrow>
            outcome b2 = Some (Fulfilled (Text v))))"
  by (auto simp: Let_def inputBox_on_def validation_settled_def resolve_def)

theorem accept_validates_before_resolving_witness:
  "outcome typed_a = None \<and>
   \<not> w_enabled (input (inputBox_on demo_box DidAccept typed_a)) \<and>
   w_busy (input (inputBox_on demo_box DidAccept typed_a)) \<and>
   outcome (validation_settled demo_box 2 (inputBox_on demo_box DidAccept typed_a)) = None \<and>
   w_enabled (input (validation_settled demo_box 2 (inputBox_on demo_box DidAccept typed_a))) \<and>
   outcome typed_ok = None \<and>
   outcome (validation_settled demo_box 2 (inputBox_on demo_box DidAccept typed_ok))
     = Some (Fulfilled (Text ''ok''))"
proof -
  have a: "outcome typed_a = None" "issued typed_a = 2" "w_value (input typed_a) = ''a''"
    by (simp_all add: typed_a_def happen_all_def demo_prompt_def inputBox_prompt_def
          inputBox_input_def inputBox_on_def)
  have ok: "outcome typed_ok = None" "issued typed_ok = 2" "w_value (input typed_ok) = ''ok''"
    by (simp_all add: typed_ok_def happen_all_def demo_prompt_def inputBox_prompt_def
          inputBox_input_def inputBox_on_def)
  from accept_validates_before_resolving
         [where p = demo_box and b = typed_a and m = "Some ''too short''"]
       accept_validates_before_resolving
         [where p = demo_box and b = typed_ok and m = None]
  show ?thesis
    by (simp add: a ok Let_def truthy_def)
qed

text \<open>
  C10. Let \<^verbatim>\<open>onDidAccept\<close> fire on a pending box whose text is \<open>v\<close>, and let anything
  happen afterwards except the settling of the validation it started: edits, other events,
  other validations. When that validation resolves, the box is enabled and not busy,
  whether \<open>v\<close> was accepted or not; if it resolves with no message and the prompt is still
  pending, the prompt is fulfilled with \<open>v\<close>, the text at the moment of the accept, and in
  no case is the prompt settled then with anything else.
\<close>

theorem accept_resolves_with_captured_text:
  fixes p :: "'e InputBoxParameters" and b :: "'i InputBoxPrompt"
  shows
    "outcome b = None \<and> Settle (issued b) \<notin> set hs \<longrightarrow>
     (let v = w_value (input b);
          b2 = happen_all p hs (inputBox_on p DidAccept b);
          b3 = validation_settled p (issued b) b2
      in (validate p v = Inr m \<longrightarrow> w_enabled (input b3) \<and> \<not> w_busy (input b3)) \<and>
         (validate p v = Inr m \<and> \<not> truthy m \<and> outcome b2 = None \<longrightarrow>
            outcome b3 = Some (Fulfilled (Text v))) \<and>
         (outcome b3 = outcome b2 \<or> outcome b3 = Some (Fulfilled (Text v))))"
proof (intro impI, elim conjE)
  assume pend: "outcome b = None" and hs: "Settle (issued b) \<notin> set hs"
  let ?v = "w_value (input b)"
  let ?b1 = "inputBox_on p DidAccept b"
  let ?b2 = "happen_all p hs ?b1"
  let ?b3 = "validation_settled p (issued b) ?b2"
  have "awaiting ?b1 (issued b) = Some (AcceptAwait ?v)" and "issued b < issued ?b1"
    using pend by (simp_all add: inputBox_on_def)
  with hs have aw: "awaiting ?b2 (issued b) = Some (AcceptAwait ?v)"
    using happen_all_keeps_awaiting by blast
  have en: "w_enabled (input ?b3) \<and> \<not> w_busy (input ?b3)" if "validate p ?v = Inr m"
    using accept_settled_fields(1,2)[OF aw that] by simp
  have res: "outcome ?b3 = Some (Fulfilled (Text ?v))"
    if "validate p ?v = Inr m" "\<not> truthy m" "outcome ?b2 = None"
    using accept_settled_fields(3)[OF aw that(1)] that(2,3) by (simp add: resolve_def)
  have either: "outcome ?b3 = outcome ?b2 \<or> outcome ?b3 = Some (Fulfilled (Text ?v))"
    using aw by (auto simp: validation_settled_def resolve_def split: sum.splits option.splits)
  show "let v = w_value (input b);
          b2 = happen_all p hs (inputBox_on p DidAccept b);
          b3 = validation_settled p (issued b) b2
      in (validate p v = Inr m \<longrightarrow> w_enabled (input b3) \<and> \<not> w_busy (input b3)) \<and>
         (validate p v = Inr m \<and> \<not> truthy m \<and> outcome b2 = None \<longrightarrow>
            outcome b3 = Some (Fulfilled (Text v))) \<and>
         (outcome b3 = outcome b2 \<or> outcome b3 = Some (Fulfilled (Text v)))"
    unfolding Let_def using en res either by blast
qed

theorem accept_resolves_with_captured_text_witness:
  "outcome typed_ok = None \<and>
   Settle (issued typed_ok) \<notin> set [Event (DidChangeValue ''okay'') :: string happening] \<and>
   w_value (input (happen_all demo_box [Event (DidChangeValue ''okay'')]
                     (inputBox_on demo_box DidAccept typed_ok))) = ''okay'' \<and>
   outcome (validation_settled demo_box 2
              (happen_all demo_box [Event (DidChangeValue ''okay'')]
                 (inputBox_on demo_box DidAccept typed_ok)))
     = Some (Fulfilled (Text ''ok'')) \<and>
   w_enabled (input (validation_settled demo_box 2
              (happen_all demo_box [Event (DidChangeValue ''okay'')]
                 (inputBox_on demo_box DidAccept typed_ok))))"
proof -
  have ok: "outcome typed_ok = None" "issued typed_ok = 2" "w_value (input typed_ok) = ''ok''"
    by (simp_all add: typed_ok_def happen_all_def demo_prompt_def inputBox_prompt_def
          inputBox_input_def inputBox_on_def)
  have mid: "outcome (happen_all demo_box [Event (DidChangeValue ''okay'')]
                     (inputBox_on demo_box DidAccept typed_ok)) = None"
    "w_value (input (happen_all demo_box [Event (DidChangeValue ''okay'')]
                     (inputBox_on demo_box DidAccept typed_ok))) = ''okay''"
    by (simp_all add: happen_all_def inputBox_on_def ok)
  from accept_resolves_with_captured_text
         [where p = demo_box and b = typed_ok and m = None
            and hs = "[Event (DidChangeValue ''okay'')]"]
  show ?thesis
    by (simp add: ok mid Let_def truthy_def)
qed

subsection \<open>Validation on every keystroke\<close>

lemma fresh_validation_init: "fresh_validation p (inputBox_prompt stack p)"
  by (simp add: fresh_validation_def inputBox_prompt_def)

lemma fresh_validation_on:
  assumes "fresh_validation p b"
  shows "fresh_validation p (inputBox_on p ev b)"
proof (cases "outcome b = None")
  case False
  with assms show ?thesis by (simp add: inputBox_on_def)
next
  case True
  with assms show ?thesis
    by (cases ev) (auto simp: inputBox_on_def fresh_validation_def)
qed

lemma fresh_validation_settled:
  assumes "fresh_validation p b"
  shows "fresh_validation p (validation_settled p pid b)"
proof (cases "awaiting b pid")
  case None
  with assms show ?thesis by (simp add: validation_settled_def)
next
  case (Some a)
  show ?thesis
  proof (cases "pid = validating b")
    case True
    with Some assms have a: "a = ChangeAwait (w_value (input b))"
      by (simp add: fresh_validation_def)
    with Some True assms show ?thesis
      by (cases "validate p (w_value (input b))")
         (simp_all add: validation_settled_def fresh_validation_def)
  next
    case False
    with Some assms show ?thesis
      by (cases a; cases "validate p (case a of AcceptAwait t \<Rightarrow> t | ChangeAwait t \<Rightarrow> t)")
         (simp_all add: validation_settled_def fresh_validation_def)
  qed
qed

lemma fresh_validation_happen_all:
  "fresh_validation p b \<Longrightarrow> fresh_validation p (happen_all p hs b)"
proof (induction hs arbitrary: b)
  case Nil
  then show ?case by (simp add: happen_all_def)
next
  case (Cons h hs)
  have "fresh_validation p (happen p b h)"
    using Cons.prems by (cases h) (simp_all add: fresh_validation_on fresh_validation_settled)
  from Cons.IH[OF this] show ?case by (simp add: happen_all_def)
qed

lemma stale_validation_discarded:
  "pid \<noteq> validating b \<Longrightarrow>
   w_validationMessage (input (validation_settled p pid b)) = w_validationMessage (input b)"
  by (simp add: validation_settled_def split: option.splits awaiter.splits sum.splits)

lemma scenario_prefixes:
  assumes "validate p ''a'' = Inr (Some msg)" and "validate p ''ab'' = Inr None"
  shows "w_validationMessage (input (happen_all p
            (take k [Event (DidChangeValue ''a''), Event (DidChangeValue ''ab''), Settle 2, Settle 1])
            (inputBox_prompt stack p))) = None"
proof -
  consider "k = 0" | "k = 1" | "k = 2" | "k = 3" | "k \<ge> 4" by linarith
  then show ?thesis
  proof cases
    case 1
    then show ?thesis by (simp add: happen_all_def inputBox_prompt_def inputBox_input_def)
  next
    case 2
    then show ?thesis
      by (simp add: happen_all_def inputBox_prompt_def inputBox_input_def inputBox_on_def)
  next
    case 3
    then show ?thesis
      by (simp add: happen_all_def inputBox_prompt_def inputBox_input_def inputBox_on_def
            numeral_2_eq_2)
  next
    case 4
    then show ?thesis
      using assms
      by (simp add: happen_all_def inputBox_prompt_def inputBox_input_def inputBox_on_def
            validation_settled_def numeral_3_eq_3 numeral_2_eq_2)
  next
    case 5
    then show ?thesis
      using assms
      by (simp add: happen_all_def inputBox_prompt_def inputBox_input_def inputBox_on_def
            validation_settled_def numeral_2_eq_2)
  qed
qed

text \<open>
  C4. After anything that can happen to an input box: if the validation issued by the
  latest keystroke has resolved, the box shows its message; and the settling of any other
  validation leaves the message as it is. With a validator that reports a message for
  \<open>a\<close> and none for \<open>ab\<close>, typing \<open>a\<close> then \<open>ab\<close>, the validation of \<open>ab\<close> resolving
  first and that of \<open>a\<close> last, the box shows no message at any moment.
\<close>

theorem last_issued_validation_wins:
  fixes p :: "'e InputBoxParameters" and stack :: "'id list"
  shows
    "(let b = (happen_all p hs (inputBox_prompt stack p) :: 'i InputBoxPrompt) in
        (validating b \<noteq> 0 \<and> awaiting b (validating b) = None \<and>
         validate p (w_value (input b)) = Inr m \<longrightarrow> w_validationMessage (input b) = m) \<and>
        (pid \<noteq> validating b \<longrightarrow>
           w_validationMessage (input (validation_settled p pid b)) =
           w_validationMessage (input b))) \<and>
     (validate p ''a'' = Inr (Some msg) \<and> validate p ''ab'' = Inr None \<longrightarrow>
        (\<forall>k. w_validationMessage (input (happen_all p
            (take k [Event (DidChangeValue ''a''), Event (DidChangeValue ''ab''), Settle 2, Settle 1])
            (inputBox_prompt stack p) :: 'i InputBoxPrompt)) = None))"
proof (intro conjI)
  let ?b = "happen_all p hs (inputBox_prompt stack p) :: 'i InputBoxPrompt"
  have "fresh_validation p ?b"
    by (intro fresh_validation_happen_all fresh_validation_init)
  then have "validating ?b \<noteq> 0 \<and> awaiting ?b (validating ?b) = None \<and>
         validate p (w_value (input ?b)) = Inr m \<longrightarrow> w_validationMessage (input ?b) = m"
    by (simp add: fresh_validation_def)
  then show "let b = ?b in
        (validating b \<noteq> 0 \<and> awaiting b (validating b) = None \<and>
         validate p (w_value (input b)) = Inr m \<longrightarrow> w_validationMessage (input b) = m) \<and>
        (pid \<noteq> validating b \<longrightarrow>
           w_validationMessage (input (validation_settled p pid b)) =
           w_validationMessage (input b))"
    by (simp add: Let_def stale_validation_discarded)
next
  show "validate p ''a'' = Inr (Some msg) \<and> validate p ''ab'' = Inr None \<longrightarrow>
        (\<forall>k. w_validationMessage (input (happen_all p
            (take k [Event (DidChangeValue ''a''), Event (DidChangeValue ''ab''), Settle 2, Settle 1])
            (inputBox_prompt stack p) :: 'i InputBoxPrompt)) = None)"
    using scenario_prefixes by blast
qed

theorem last_issued_validation_wins_witness:
  "w_validationMessage (input (happen_all demo_box
      [Event (DidChangeValue ''a''), Event (DidChangeValue ''ab''), Settle 2, Settle 1]
      demo_prompt)) = None \<and>
   w_validationMessage (input (happen_all demo_box
      [Event (DidChangeValue ''a''), Settle 1] demo_prompt)) = Some ''too short''"
proof -
  let ?hs = "[Event (DidChangeValue ''a''), Settle 1] :: string happening list"
  let ?b = "happen_all demo_box ?hs demo_prompt"
  note t = last_issued_validation_wins
      [where p = demo_box and stack = "[] :: demo_step list" and hs = ?hs
         and m = "Some ''too short''" and msg = "''too short''" and pid = 0,
       folded demo_prompt_def]
  have fields: "validating ?b = 1" "awaiting ?b 1 = None" "w_value (input ?b) = ''a''"
    by (simp_all add: happen_all_def demo_prompt_def inputBox_prompt_def inputBox_input_def
          inputBox_on_def validation_settled_def)
  have 1: "w_validationMessage (input ?b) = Some ''too short''"
    using t fields by (simp add: Let_def)
  have "\<forall>k. w_validationMessage (input (happen_all demo_box
            (take k [Event (DidChangeValue ''a''), Event (DidChangeValue ''ab''), Settle 2, Settle 1])
            demo_prompt)) = None"
    using t by simp
  from this[rule_format, of 4] 1 show ?thesis by simp
qed

end
